theory Spec2Isabelle
  imports Main "HOL-Library.Sublist"
begin

section \<open>Text: characters, character classes and string methods\<close>

text \<open>
  A document is a Python \<open>str\<close>, a sequence of code points. It is modelled as a
  \<open>string\<close> whose characters are the code points below 256; the two character
  classes the program relies on are the ones Python uses for such code points, both in
  the regular-expression escapes \<open>\s\<close> and \<open>\w\<close> and in \<open>str.rstrip()\<close>.
\<close>

definition is_space :: "char \<Rightarrow> bool" where
  "is_space c \<longleftrightarrow>
     c \<in> set [CHR 0x09, CHR 0x0A, CHR 0x0B, CHR 0x0C, CHR 0x0D, CHR 0x1C, CHR 0x1D, CHR 0x1E,
              CHR 0x1F, CHR 0x20, CHR 0x85, CHR 0xA0]"

definition is_word :: "char \<Rightarrow> bool" where
  "is_word c \<longleftrightarrow>
     (let n = (of_char c :: nat) in
        (48 \<le> n \<and> n \<le> 57) \<or> (65 \<le> n \<and> n \<le> 90) \<or> n = 95 \<or> (97 \<le> n \<and> n \<le> 122) \<or>
        n = 170 \<or> n = 178 \<or> n = 179 \<or> n = 181 \<or> n = 185 \<or> n = 186 \<or>
        (188 \<le> n \<and> n \<le> 190) \<or> (192 \<le> n \<and> n \<le> 214) \<or> (216 \<le> n \<and> n \<le> 246) \<or>
        248 \<le> n)"

text \<open>\<open>s.split(sep)\<close> for a one-character separator: never an empty list.\<close>

fun str_split :: "char \<Rightarrow> string \<Rightarrow> string list" where
  "str_split sep [] = [[]]"
| "str_split sep (c # cs) =
     (if c = sep then [] # str_split sep cs
      else (case str_split sep cs of [] \<Rightarrow> [[c]] | l # ls \<Rightarrow> (c # l) # ls))"

text \<open>\<open>sep.join(lines)\<close>.\<close>

fun str_join :: "string \<Rightarrow> string list \<Rightarrow> string" where
  "str_join sep [] = []"
| "str_join sep [l] = l"
| "str_join sep (l # l' # ls) = l @ sep @ str_join sep (l' # ls)"

text \<open>\<open>s.rstrip()\<close>: the trailing run of whitespace is cut off.\<close>

definition str_rstrip :: "string \<Rightarrow> string" where
  "str_rstrip s = rev (dropWhile is_space (rev s))"

text \<open>
  \<open>s.replace(old, new)\<close>: every occurrence of \<open>old\<close>, found from the left and not
  overlapping, is replaced; an empty \<open>old\<close> puts \<open>new\<close> before every character and
  at the end.
\<close>

fun str_replace :: "string \<Rightarrow> string \<Rightarrow> string \<Rightarrow> string" where
  "str_replace old new [] = (if old = [] then new else [])"
| "str_replace old new (c # cs) =
     (if old = [] then new @ c # str_replace old new cs
      else if prefix old (c # cs) then new @ str_replace old new (drop (length old - 1) cs)
      else c # str_replace old new cs)"

section \<open>The regular-expression engine\<close>

text \<open>
  The program's pattern uses literals, concatenation, the optional group \<open>(?:...)?\<close>,
  capture groups, and three repetitions of a single-character class: the greedy
  \<open>\w+\<close> and \<open>\s*\<close>, and the non-greedy \<open>.*?\<close> (under \<open>re.DOTALL\<close> the dot
  takes every character, newlines too).
\<close>

datatype cls = Space | Word | Dot

fun in_cls :: "cls \<Rightarrow> char \<Rightarrow> bool" where
  "in_cls Space c = is_space c"
| "in_cls Word c = is_word c"
| "in_cls Dot c = True"

datatype rx =
    Lit string
  | Seq rx rx
  | Opt rx
  | Star cls
  | Plus cls
  | Lazy cls
  | Group nat rx

type_synonym groups = "(nat \<times> string) list"
type_synonym mstate = "string \<times> groups"

text \<open>
  A backtracking matcher explores the ways a pattern can match at the current position
  in a fixed order of preference and takes the first that lets the rest of the pattern
  match. \<open>greedy\<close> and \<open>lazy\<close> list what is left of the input after a repetition of
  a class, in that order: the longest run first for the greedy repetition, the shortest
  first for the non-greedy one.
\<close>

fun greedy :: "cls \<Rightarrow> string \<Rightarrow> string list" where
  "greedy k [] = [[]]"
| "greedy k (c # cs) = (if in_cls k c then greedy k cs @ [c # cs] else [c # cs])"

fun lazy :: "cls \<Rightarrow> string \<Rightarrow> string list" where
  "lazy k [] = [[]]"
| "lazy k (c # cs) = (c # cs) # (if in_cls k c then lazy k cs else [])"

text \<open>
  \<open>backtrack r (s, g)\<close> lists, in order of preference, every state the matcher can
  reach by matching \<open>r\<close> at the head of the remaining input \<open>s\<close>: the input left
  over and the groups captured so far, the latest capture first. A group records the
  text its body consumed; \<open>map_of g n\<close> is \<open>match.group(n)\<close>.
\<close>

primrec backtrack :: "rx \<Rightarrow> mstate \<Rightarrow> mstate list" where
  "backtrack (Lit w) st =
     (if prefix w (fst st) then [(drop (length w) (fst st), snd st)] else [])"
| "backtrack (Seq a b) st = concat (map (backtrack b) (backtrack a st))"
| "backtrack (Opt a) st = backtrack a st @ [st]"
| "backtrack (Star k) st = map (\<lambda>s'. (s', snd st)) (greedy k (fst st))"
| "backtrack (Plus k) st =
     (case fst st of
        [] \<Rightarrow> []
      | c # cs \<Rightarrow> if in_cls k c then map (\<lambda>s'. (s', snd st)) (greedy k cs) else [])"
| "backtrack (Lazy k) st = map (\<lambda>s'. (s', snd st)) (lazy k (fst st))"
| "backtrack (Group n a) st =
     map (\<lambda>st'. (fst st', (n, take (length (fst st) - length (fst st')) (fst st)) # snd st'))
       (backtrack a st)"

text \<open>
  A match attempt at the head of \<open>s\<close>: the number of characters of the preferred match
  and its groups, or \<open>None\<close>.
\<close>

definition match_here :: "rx \<Rightarrow> string \<Rightarrow> (nat \<times> groups) option" where
  "match_here r s =
     (case backtrack r (s, []) of
        [] \<Rightarrow> None
      | st # _ \<Rightarrow> Some (length s - length (fst st), snd st))"

text \<open>
  The same search as the engine runs it: one alternative at a time, each followed by the
  rest of the pattern (the continuation \<open>k\<close>), and the first alternative under which
  the rest succeeds is taken.
\<close>

fun first_some :: "('a \<Rightarrow> 'b option) \<Rightarrow> 'a list \<Rightarrow> 'b option" where
  "first_some k [] = None"
| "first_some k (x # xs) = (case k x of Some y \<Rightarrow> Some y | None \<Rightarrow> first_some k xs)"

fun greedy_k :: "cls \<Rightarrow> (string \<Rightarrow> 'a option) \<Rightarrow> string \<Rightarrow> 'a option" where
  "greedy_k c k [] = k []"
| "greedy_k c k (x # xs) =
     (if in_cls c x
      then (case greedy_k c k xs of Some y \<Rightarrow> Some y | None \<Rightarrow> k (x # xs))
      else k (x # xs))"

fun lazy_k :: "cls \<Rightarrow> (string \<Rightarrow> 'a option) \<Rightarrow> string \<Rightarrow> 'a option" where
  "lazy_k c k [] = k []"
| "lazy_k c k (x # xs) =
     (case k (x # xs) of
        Some y \<Rightarrow> Some y
      | None \<Rightarrow> if in_cls c x then lazy_k c k xs else None)"

primrec search :: "rx \<Rightarrow> (mstate \<Rightarrow> 'a option) \<Rightarrow> mstate \<Rightarrow> 'a option" where
  "search (Lit w) k st =
     (if prefix w (fst st) then k (drop (length w) (fst st), snd st) else None)"
| "search (Seq a b) k st = search a (search b k) st"
| "search (Opt a) k st = (case search a k st of Some y \<Rightarrow> Some y | None \<Rightarrow> k st)"
| "search (Star c) k st = greedy_k c (\<lambda>s'. k (s', snd st)) (fst st)"
| "search (Plus c) k st =
     (case fst st of
        [] \<Rightarrow> None
      | x # xs \<Rightarrow> if in_cls c x then greedy_k c (\<lambda>s'. k (s', snd st)) xs else None)"
| "search (Lazy c) k st = lazy_k c (\<lambda>s'. k (s', snd st)) (fst st)"
| "search (Group n a) k st =
     search a (\<lambda>st'. k (fst st', (n, take (length (fst st) - length (fst st')) (fst st)) # snd st')) st"


datatype error = AttributeError | OSError

text \<open>
  \<open>re.sub(pattern, repl, text)\<close> with a function as \<open>repl\<close>: the text is scanned from
  the left; where the pattern matches, the replacement computed from the match is
  emitted and the scan goes on behind the match; a character at which no match starts
  is copied. An exception raised by \<open>repl\<close> ends the call.
  (After an empty match the character is copied and the scan moves on by one; the
  program's pattern has no empty match.)
\<close>

fun re_sub :: "rx \<Rightarrow> (groups \<Rightarrow> error + string) \<Rightarrow> string \<Rightarrow> error + string" where
  "re_sub r repl [] =
     (case match_here r [] of
        None \<Rightarrow> Inr []
      | Some (n, g) \<Rightarrow> repl g)"
| "re_sub r repl (c # cs) =
     (case match_here r (c # cs) of
        None \<Rightarrow> (case re_sub r repl cs of Inl e \<Rightarrow> Inl e | Inr out \<Rightarrow> Inr (c # out))
      | Some (n, g) \<Rightarrow>
          (case repl g of
             Inl e \<Rightarrow> Inl e
           | Inr new \<Rightarrow>
               (if n = 0
                then (case re_sub r repl cs of Inl e \<Rightarrow> Inl e | Inr out \<Rightarrow> Inr (new @ c # out))
                else (case re_sub r repl (drop (n - 1) cs) of
                        Inl e \<Rightarrow> Inl e
                      | Inr out \<Rightarrow> Inr (new @ out)))))"

section \<open>The program: refactor\_controller\<close>

text \<open>The parts of the pattern, in the order the source concatenates them.\<close>

definition decl_rx :: rx where
  "decl_rx =
     Group 1 (Seq (Lit ''export const '')
             (Seq (Plus Word)
                  (Lit '' = async (req: RequestWithTraceContext, res: Response) => {'')))"

definition trace_rx :: rx where
  "trace_rx = Group 2 (Opt (Seq (Lit ''const { traceId, spanId } = req;'') (Star Space)))"

definition catch_rx :: rx where
  "catch_rx =
     Seq (Lit ''} catch (error'')
    (Seq (Opt (Seq (Lit '':'') (Seq (Star Space) (Lit ''any''))))
         (Lit '') {''))"

definition end_rx :: rx where
  "end_rx = Seq (Lit ''}'') (Seq (Star Space) (Lit ''};''))"

definition pattern :: rx where
  "pattern =
     Seq decl_rx
    (Seq (Star Space)
    (Seq trace_rx
    (Seq (Lit ''try {'')
    (Seq (Group 3 (Lazy Dot))
    (Seq catch_rx
    (Seq (Lazy Dot) end_rx))))))"

text \<open>The loop over \<open>body_lines\<close>: a line that starts with four spaces loses them.\<close>

definition cleaned_line :: "string \<Rightarrow> string" where
  "cleaned_line line = (if prefix ''    '' line then drop 4 line else line)"

definition cleaned_body :: "string \<Rightarrow> string" where
  "cleaned_body body = str_join [CHR 0x0A] (map cleaned_line (str_split (CHR 0x0A) body))"

definition wrap_decl :: "string \<Rightarrow> string" where
  "wrap_decl func_decl =
     str_replace '' = async ('' '' = asyncHandler(async (''
       (str_replace ''export const'' ''export const'' func_decl)"

text \<open>
  \<open>replace_func\<close>: a group that did not take part in the match is \<open>None\<close> in Python;
  calling \<open>split\<close> or \<open>replace\<close> on it raises, while the test \<open>if trace_extract\<close>
  is false for it as for the empty string, and nothing is appended then.
\<close>

definition replace_func :: "groups \<Rightarrow> error + string" where
  "replace_func g =
     (case map_of g 3 of
        None \<Rightarrow> Inl AttributeError
      | Some body \<Rightarrow>
          (case map_of g 1 of
             None \<Rightarrow> Inl AttributeError
           | Some func_decl \<Rightarrow>
               Inr (wrap_decl func_decl @ [CHR 0x0A]
                    @ (case map_of g 2 of
                         None \<Rightarrow> []
                       | Some trace_extract \<Rightarrow> if trace_extract \<noteq> [] then trace_extract else [])
                    @ str_rstrip (cleaned_body body)
                    @ [CHR 0x0A] @ ''});'')))"

definition refactor_controller :: "string \<Rightarrow> error + string" where
  "refactor_controller content = re_sub pattern replace_func content"

text \<open>
  The script around it. The world it runs in is the files it can read, which of them it
  may write, and the trace of what it did: what it printed, which file it opened to
  read or to write, and that it called the transformation. The file holds text; how it
  is decoded and encoded is not part of the model. The script ends with an exit status
  or with an exception that nothing catches.
\<close>

datatype event = Print string | Read_file string | Transform | Write_file string

record world =
  files :: "string \<rightharpoonup> string"
  writable :: "string \<Rightarrow> bool"
  trace :: "event list"

datatype outcome = Exit nat | Uncaught error

definition usage_text :: string where
  "usage_text = ''Usage: python refactor_controllers.py <file_path>''"

definition usage_exit :: "world \<Rightarrow> outcome \<times> world" where
  "usage_exit w = (Exit 1, w\<lparr>trace := trace w @ [Print usage_text]\<rparr>)"

definition rewrite_file :: "string \<Rightarrow> world \<Rightarrow> outcome \<times> world" where
  "rewrite_file file_path w =
     (let w1 = w\<lparr>trace := trace w @ [Read_file file_path]\<rparr> in
      case files w file_path of
        None \<Rightarrow> (Uncaught OSError, w1)
      | Some content \<Rightarrow>
          (let w2 = w1\<lparr>trace := trace w1 @ [Transform]\<rparr> in
           case refactor_controller content of
             Inl e \<Rightarrow> (Uncaught e, w2)
           | Inr refactored \<Rightarrow>
               (let w3 = w2\<lparr>trace := trace w2 @ [Write_file file_path]\<rparr> in
                if \<not> writable w file_path then (Uncaught OSError, w3)
                else (Exit 0,
                      w3\<lparr>files := (files w3)(file_path \<mapsto> refactored),
                         trace := trace w3 @ [Print (''Refactored '' @ file_path)]\<rparr>))))"

definition main :: "string list \<Rightarrow> world \<Rightarrow> outcome \<times> world" where
  "main argv w =
     (case (if length argv > 1 then Some (argv ! 1) else None) of
        None \<Rightarrow> usage_exit w
      | Some file_path \<Rightarrow> if file_path = [] then usage_exit w else rewrite_file file_path w)"

section \<open>Vocabulary for the properties\<close>

text \<open>
  The texts the pattern's parts accept, written out: the declaration line for a handler
  name, the optional trace-extraction statement with the whitespace behind it, the head
  of the catch block, and the closing tokens of the handler.
\<close>

definition decl_text :: "string \<Rightarrow> string" where
  "decl_text name =
     ''export const '' @ name @ '' = async (req: RequestWithTraceContext, res: Response) => {''"

definition is_name :: "string \<Rightarrow> bool" where
  "is_name name \<longleftrightarrow> name \<noteq> [] \<and> list_all is_word name"

definition is_trace :: "string \<Rightarrow> bool" where
  "is_trace tr \<longleftrightarrow>
     tr = [] \<or> (\<exists>ws. list_all is_space ws \<and> tr = ''const { traceId, spanId } = req;'' @ ws)"

definition is_catch :: "string \<Rightarrow> bool" where
  "is_catch h \<longleftrightarrow>
     h = ''} catch (error) {'' \<or>
     (\<exists>ws. list_all is_space ws \<and> h = ''} catch (error:'' @ ws @ ''any) {'')"

definition is_end :: "string \<Rightarrow> bool" where
  "is_end e \<longleftrightarrow> (\<exists>ws. list_all is_space ws \<and> e = ''}'' @ ws @ ''};'')"

definition catch_at :: "string \<Rightarrow> bool" where
  "catch_at s \<longleftrightarrow> backtrack catch_rx (s, []) \<noteq> []"


text \<open>The tail of the pattern behind the body: catch head, the handler text, the closing tokens.\<close>

definition tail_rx :: rx where
  "tail_rx = Seq catch_rx (Seq (Lazy Dot) end_rx)"

text \<open>
  The scenario of the specification's section 8: the input document, the output the
  specification expects, and the output the program produces.
\<close>

definition scenario_in_lines :: "string list" where
  "scenario_in_lines =
     [''export const getUser = async (req: RequestWithTraceContext, res: Response) => {'',
      ''  const { traceId, spanId } = req;'',
      ''  try {'',
      ''    const user = await fetchUser(req.params.id);'',
      ''    res.json(user);'',
      ''  } catch (error: any) {'',
      ''    res.status(500).json({ error: error.message });'',
      ''  }'',
      ''};'']"

definition scenario_in :: string where
  "scenario_in = str_join [CHR 0x0A] scenario_in_lines"

definition scenario_expected_lines :: "string list" where
  "scenario_expected_lines =
     [''export const getUser = asyncHandler(async (req: RequestWithTraceContext, res: Response) => {'',
      ''const { traceId, spanId } = req;'',
      ''const user = await fetchUser(req.params.id);'',
      ''res.json(user);'',
      ''});'']"

definition scenario_expected :: string where
  "scenario_expected = str_join [CHR 0x0A] scenario_expected_lines"

text \<open>
  The section prints both texts inside a list item, two columns to the right; this is a
  text with these two spaces in front of every line.
\<close>

definition as_printed :: "string list \<Rightarrow> string" where
  "as_printed ls = str_join [CHR 0x0A] (map (\<lambda>l. ''  '' @ l) ls)"

definition scenario_out :: string where
  "scenario_out = str_join [CHR 0x0A]
     [''export const getUser = asyncHandler(async (req: RequestWithTraceContext, res: Response) => {'',
      ''const { traceId, spanId } = req;'',
      ''  '',
      ''const user = await fetchUser(req.params.id);'',
      ''res.json(user);'',
      ''});'']"

text \<open>
  The matches \<open>re.sub\<close> replaces, as \<open>re.finditer\<close> lists them: the same scan from the
  left, giving for each match its start offset, its end offset and its groups.
\<close>

fun finditer_from :: "rx \<Rightarrow> nat \<Rightarrow> string \<Rightarrow> (nat \<times> nat \<times> groups) list" where
  "finditer_from r pos [] =
     (case match_here r [] of
        None \<Rightarrow> []
      | Some (n, g) \<Rightarrow> [(pos, pos + n, g)])"
| "finditer_from r pos (c # cs) =
     (case match_here r (c # cs) of
        None \<Rightarrow> finditer_from r (Suc pos) cs
      | Some (n, g) \<Rightarrow>
          (pos, pos + n, g) #
          (if n = 0 then finditer_from r (Suc pos) cs
           else finditer_from r (pos + n) (drop (n - 1) cs)))"

definition finditer :: "rx \<Rightarrow> string \<Rightarrow> (nat \<times> nat \<times> groups) list" where
  "finditer r s = finditer_from r 0 s"


text \<open>
  A document with the spans of a list of matches replaced: the text between the spans
  is copied, each span gives way to its replacement.
\<close>

fun splice :: "nat \<Rightarrow> (nat \<times> nat \<times> string) list \<Rightarrow> string \<Rightarrow> string" where
  "splice pos [] doc = drop pos doc"
| "splice pos ((a, b, new) # ms) doc = take (a - pos) (drop pos doc) @ new @ splice b ms doc"


definition replaced :: "(groups \<Rightarrow> error + string) \<Rightarrow> nat \<times> nat \<times> groups \<Rightarrow> nat \<times> nat \<times> string" where
  "replaced repl m = (fst m, fst (snd m), (case repl (snd (snd m)) of Inr new \<Rightarrow> new | Inl e \<Rightarrow> []))"


text \<open>The number of space characters a line starts with.\<close>

definition leading_spaces :: "string \<Rightarrow> nat" where
  "leading_spaces line = length (takeWhile (\<lambda>c. c = CHR '' '') line)"



text \<open>
  A sample document: a comment line, a handler with a trace-extraction statement whose
  try block contains a nested try/catch, a statement, a second handler without a
  trace-extraction statement. \<open>sample_out\<close> is what the program makes of it.
\<close>

definition sample_doc :: string where
  "sample_doc = str_join [CHR 0x0A]
     [''// handlers'',
      ''export const a = async (req: RequestWithTraceContext, res: Response) => {'',
      ''  const { traceId, spanId } = req;'',
      ''  try {'',
      ''    try {'',
      ''      f();'',
      ''    } catch (error) {'',
      ''      g();'',
      ''    }'',
      ''    h();'',
      ''  } catch (error: any) {'',
      ''    k();'',
      ''  }'',
      ''};'',
      ''const x = 1;'',
      ''export const b = async (req: RequestWithTraceContext, res: Response) => {'',
      ''  try {'',
      ''    p();'',
      ''  } catch (error) {'',
      ''    q();'',
      ''  }'',
      ''};'',
      '''']"

definition sample_out :: string where
  "sample_out = str_join [CHR 0x0A]
     [''// handlers'',
      ''export const a = asyncHandler(async (req: RequestWithTraceContext, res: Response) => {'',
      ''const { traceId, spanId } = req;'',
      ''  '',
      ''try {'',
      ''  f();'',
      ''});'',
      ''const x = 1;'',
      ''export const b = asyncHandler(async (req: RequestWithTraceContext, res: Response) => {'',
      '''',
      ''p();'',
      ''});'',
      '''']"

definition sample_groups_a :: groups where
  "sample_groups_a =
     [(3, str_join [CHR 0x0A] ['''', ''    try {'', ''      f();'', ''    '']),
      (2, str_join [CHR 0x0A] [''const { traceId, spanId } = req;'', ''  '']),
      (1, ''export const a = async (req: RequestWithTraceContext, res: Response) => {'')]"

definition sample_groups_b :: groups where
  "sample_groups_b =
     [(3, str_join [CHR 0x0A] ['''', ''    p();'', ''  '']),
      (2, []),
      (1, ''export const b = async (req: RequestWithTraceContext, res: Response) => {'')]"

text \<open>A document whose only handler takes a plain request: the pattern matches nowhere.\<close>

definition plain_doc :: string where
  "plain_doc = str_join [CHR 0x0A]
     [''export const ping = async (req: Request, res: Response) => {'',
      ''  try {'',
      ''    res.json(1);'',
      ''  } catch (error) {'',
      ''    res.status(500);'',
      ''  }'',
      ''};'',
      '''']"

text \<open>
  The declaration line after the rewrite, and the parameter list both forms share.
\<close>

definition params_text :: string where
  "params_text = ''req: RequestWithTraceContext, res: Response) => {''"

definition wrapped_text :: "string \<Rightarrow> string" where
  "wrapped_text name =
     ''export const '' @ name @
     '' = asyncHandler(async (req: RequestWithTraceContext, res: Response) => {''"










definition demo_world :: world where
  "demo_world = \<lparr>files = [''users.ts'' \<mapsto> scenario_in], writable = (\<lambda>p. True), trace = []\<rparr>"

section \<open>Properties of the matcher\<close>

lemma set_greedy: "set (greedy k s) = {s'. \<exists>w. s = w @ s' \<and> list_all (in_cls k) w}"
proof (induction s)
  case Nil
  then show ?case by auto
next
  case (Cons c cs)
  show ?case
  proof (cases "in_cls k c")
    case True
    show ?thesis
    proof (rule set_eqI)
      fix x
      show "x \<in> set (greedy k (c # cs)) \<longleftrightarrow> x \<in> {s'. \<exists>w. c # cs = w @ s' \<and> list_all (in_cls k) w}"
      proof
        assume "x \<in> set (greedy k (c # cs))"
        with True Cons have "x = c # cs \<or> (\<exists>w. cs = w @ x \<and> list_all (in_cls k) w)" by auto
        then show "x \<in> {s'. \<exists>w. c # cs = w @ s' \<and> list_all (in_cls k) w}"
        proof
          assume "x = c # cs"
          then have "c # cs = [] @ x \<and> list_all (in_cls k) []" by simp
          then show ?thesis by blast
        next
          assume "\<exists>w. cs = w @ x \<and> list_all (in_cls k) w"
          then obtain w where "cs = w @ x" "list_all (in_cls k) w" by blast
          with True have "c # cs = (c # w) @ x \<and> list_all (in_cls k) (c # w)" by simp
          then show ?thesis by blast
        qed
      next
        assume "x \<in> {s'. \<exists>w. c # cs = w @ s' \<and> list_all (in_cls k) w}"
        then obtain w where w: "c # cs = w @ x" "list_all (in_cls k) w" by blast
        show "x \<in> set (greedy k (c # cs))"
        proof (cases w)
          case Nil
          with w have "x = c # cs" by simp
          then show ?thesis using True by simp
        next
          case (Cons a w')
          with w have "cs = w' @ x" "list_all (in_cls k) w'" by auto
          with True Cons.IH show ?thesis by auto
        qed
      qed
    qed
  next
    case False
    show ?thesis
    proof (rule set_eqI)
      fix x
      show "x \<in> set (greedy k (c # cs)) \<longleftrightarrow> x \<in> {s'. \<exists>w. c # cs = w @ s' \<and> list_all (in_cls k) w}"
      proof
        assume "x \<in> set (greedy k (c # cs))"
        with False have "c # cs = [] @ x \<and> list_all (in_cls k) []" by simp
        then show "x \<in> {s'. \<exists>w. c # cs = w @ s' \<and> list_all (in_cls k) w}" by blast
      next
        assume "x \<in> {s'. \<exists>w. c # cs = w @ s' \<and> list_all (in_cls k) w}"
        then obtain w where w: "c # cs = w @ x" "list_all (in_cls k) w" by blast
        show "x \<in> set (greedy k (c # cs))"
        proof (cases w)
          case Nil
          with w have "x = c # cs" by simp
          then show ?thesis using False by simp
        next
          case (Cons a w')
          with w False show ?thesis by auto
        qed
      qed
    qed
  qed
qed

lemma lazy_eq_rev_greedy: "lazy k s = rev (greedy k s)"
  by (induction s) auto

lemma set_lazy: "set (lazy k s) = {s'. \<exists>w. s = w @ s' \<and> list_all (in_cls k) w}"
  by (simp add: lazy_eq_rev_greedy set_greedy)

lemma lazy_Dot: "lazy Dot s = map (\<lambda>i. drop i s) [0..<Suc (length s)]"
proof (induction s)
  case Nil
  then show ?case by simp
next
  case (Cons c cs)
  have "[0..<Suc (length (c # cs))] = 0 # map Suc [0..<Suc (length cs)]"
    by (metis length_Cons upt_conv_Cons map_Suc_upt zero_less_Suc)
  then show ?case using Cons by (simp add: comp_def del: upt_Suc)
qed

lemma in_Lit:
  "st' \<in> set (backtrack (Lit w) st) \<longleftrightarrow> fst st = w @ fst st' \<and> snd st' = snd st"
  by (cases st') (auto simp: prefix_def)

lemma in_Seq:
  "st' \<in> set (backtrack (Seq a b) st) \<longleftrightarrow> (\<exists>x \<in> set (backtrack a st). st' \<in> set (backtrack b x))"
  by auto

lemma in_Opt:
  "st' \<in> set (backtrack (Opt a) st) \<longleftrightarrow> st' \<in> set (backtrack a st) \<or> st' = st"
  by auto

lemma in_Star:
  "st' \<in> set (backtrack (Star k) st) \<longleftrightarrow>
     (\<exists>w. fst st = w @ fst st' \<and> list_all (in_cls k) w) \<and> snd st' = snd st"
  by (cases st') (auto simp: set_greedy)

lemma in_Lazy:
  "st' \<in> set (backtrack (Lazy k) st) \<longleftrightarrow>
     (\<exists>w. fst st = w @ fst st' \<and> list_all (in_cls k) w) \<and> snd st' = snd st"
  by (cases st') (auto simp: set_lazy)

lemma in_Plus:
  "st' \<in> set (backtrack (Plus k) st) \<longleftrightarrow>
     (\<exists>w. w \<noteq> [] \<and> fst st = w @ fst st' \<and> list_all (in_cls k) w) \<and> snd st' = snd st"
proof (cases "fst st")
  case Nil
  then show ?thesis by auto
next
  case (Cons c cs)
  show ?thesis
  proof
    assume "st' \<in> set (backtrack (Plus k) st)"
    with Cons obtain w where "in_cls k c" "cs = w @ fst st'" "list_all (in_cls k) w" "snd st' = snd st"
      by (cases st') (auto simp: set_greedy split: if_splits)
    with Cons have "c # w \<noteq> [] \<and> fst st = (c # w) @ fst st' \<and> list_all (in_cls k) (c # w)" by simp
    with \<open>snd st' = snd st\<close> show "(\<exists>w. w \<noteq> [] \<and> fst st = w @ fst st' \<and> list_all (in_cls k) w) \<and> snd st' = snd st"
      by blast
  next
    assume "(\<exists>w. w \<noteq> [] \<and> fst st = w @ fst st' \<and> list_all (in_cls k) w) \<and> snd st' = snd st"
    then obtain w where w: "w \<noteq> []" "fst st = w @ fst st'" "list_all (in_cls k) w" "snd st' = snd st"
      by blast
    then obtain a w' where "w = a # w'" by (cases w) auto
    with w Cons have "a = c" "cs = w' @ fst st'" "in_cls k c" "list_all (in_cls k) w'" by auto
    with Cons w(4) show "st' \<in> set (backtrack (Plus k) st)"
      by (cases st') (auto simp: set_greedy)
  qed
qed

text \<open>What is left over is a suffix of the input.\<close>

lemma backtrack_suffix:
  "st' \<in> set (backtrack r st) \<Longrightarrow> \<exists>w. fst st = w @ fst st'"
proof (induction r arbitrary: st st')
  case (Lit x)
  then show ?case unfolding in_Lit by blast
next
  case (Seq r1 r2)
  then obtain x where x: "x \<in> set (backtrack r1 st)" "st' \<in> set (backtrack r2 x)"
    by (auto simp: in_Seq)
  from Seq.IH(1)[OF x(1)] Seq.IH(2)[OF x(2)] show ?case by auto
next
  case (Opt r)
  from Opt.prems have "st' \<in> set (backtrack r st) \<or> st' = st" unfolding in_Opt .
  then show ?case
  proof
    assume "st' \<in> set (backtrack r st)"
    from Opt.IH[OF this] show ?thesis .
  next
    assume "st' = st"
    then have "fst st = [] @ fst st'" by simp
    then show ?thesis by blast
  qed
next
  case (Star x)
  then show ?case unfolding in_Star by blast
next
  case (Plus x)
  then show ?case unfolding in_Plus by blast
next
  case (Lazy x)
  then show ?case unfolding in_Lazy by blast
next
  case (Group n r)
  from Group.prems obtain x where x: "x \<in> set (backtrack r st)" "fst st' = fst x" by auto
  from Group.IH[OF x(1)] x(2) show ?case by simp
qed

lemma in_Group:
  "st' \<in> set (backtrack (Group n a) st) \<longleftrightarrow>
     (\<exists>w x. x \<in> set (backtrack a st) \<and> fst st = w @ fst x \<and> st' = (fst x, (n, w) # snd x))"
proof
  assume "st' \<in> set (backtrack (Group n a) st)"
  then obtain x where x: "x \<in> set (backtrack a st)"
    "st' = (fst x, (n, take (length (fst st) - length (fst x)) (fst st)) # snd x)" by auto
  from backtrack_suffix[OF x(1)] obtain w where "fst st = w @ fst x" by blast
  with x show "\<exists>w x. x \<in> set (backtrack a st) \<and> fst st = w @ fst x \<and> st' = (fst x, (n, w) # snd x)"
    by auto
next
  assume "\<exists>w x. x \<in> set (backtrack a st) \<and> fst st = w @ fst x \<and> st' = (fst x, (n, w) # snd x)"
  then obtain w x where x: "x \<in> set (backtrack a st)" "fst st = w @ fst x" "st' = (fst x, (n, w) # snd x)"
    by blast
  then have "st' = (fst x, (n, take (length (fst st) - length (fst x)) (fst st)) # snd x)" by simp
  with x(1) show "st' \<in> set (backtrack (Group n a) st)" by auto
qed

lemma mem_Lit: "(s', g') \<in> set (backtrack (Lit w) (s, g)) \<longleftrightarrow> s = w @ s' \<and> g' = g"
  by (simp add: in_Lit del: backtrack.simps)

lemma mem_Seq:
  "(s', g') \<in> set (backtrack (Seq a b) st) \<longleftrightarrow>
     (\<exists>s1 g1. (s1, g1) \<in> set (backtrack a st) \<and> (s', g') \<in> set (backtrack b (s1, g1)))"
  by auto

lemma mem_Opt:
  "(s', g') \<in> set (backtrack (Opt a) (s, g)) \<longleftrightarrow>
     (s', g') \<in> set (backtrack a (s, g)) \<or> (s' = s \<and> g' = g)"
  by auto

lemma mem_Star:
  "(s', g') \<in> set (backtrack (Star k) (s, g)) \<longleftrightarrow>
     (\<exists>w. s = w @ s' \<and> list_all (in_cls k) w) \<and> g' = g"
  by (simp add: in_Star del: backtrack.simps)

lemma mem_Lazy:
  "(s', g') \<in> set (backtrack (Lazy k) (s, g)) \<longleftrightarrow>
     (\<exists>w. s = w @ s' \<and> list_all (in_cls k) w) \<and> g' = g"
  by (simp add: in_Lazy del: backtrack.simps)

lemma mem_Plus:
  "(s', g') \<in> set (backtrack (Plus k) (s, g)) \<longleftrightarrow>
     (\<exists>w. w \<noteq> [] \<and> s = w @ s' \<and> list_all (in_cls k) w) \<and> g' = g"
  by (simp add: in_Plus del: backtrack.simps)

lemma mem_Group:
  "(s', g') \<in> set (backtrack (Group n a) (s, g)) \<longleftrightarrow>
     (\<exists>w g1. (s', g1) \<in> set (backtrack a (s, g)) \<and> s = w @ s' \<and> g' = (n, w) # g1)"
  by (simp add: in_Group del: backtrack.simps)

lemmas mem_rx = mem_Lit mem_Seq mem_Opt mem_Star mem_Lazy mem_Plus mem_Group

lemma in_cls_Space [simp]: "in_cls Space = is_space" by (rule ext) simp
lemma in_cls_Word [simp]: "in_cls Word = is_word" by (rule ext) simp

lemma mem_decl_gen:
  "(s', g') \<in> set (backtrack (Group n (Seq (Lit a) (Seq (Plus k) (Lit b)))) (s, g)) \<longleftrightarrow>
     (\<exists>w. (w \<noteq> [] \<and> list_all (in_cls k) w) \<and> s = (a @ w @ b) @ s' \<and> g' = (n, a @ w @ b) # g)"
  unfolding mem_rx by auto

lemma mem_trace_gen:
  "(s', g') \<in> set (backtrack (Group n (Opt (Seq (Lit a) (Star k)))) (s, g)) \<longleftrightarrow>
     (\<exists>tr. (tr = [] \<or> (\<exists>ws. list_all (in_cls k) ws \<and> tr = a @ ws)) \<and> s = tr @ s' \<and> g' = (n, tr) # g)"
  unfolding mem_rx by auto

lemma mem_catch_gen:
  "(s', g') \<in> set (backtrack (Seq (Lit a) (Seq (Opt (Seq (Lit b) (Seq (Star k) (Lit c)))) (Lit d))) (s, g)) \<longleftrightarrow>
     (\<exists>h. (h = a @ d \<or> (\<exists>ws. list_all (in_cls k) ws \<and> h = a @ b @ ws @ c @ d)) \<and> s = h @ s' \<and> g' = g)"
  unfolding mem_rx by auto

lemma mem_end_gen:
  "(s', g') \<in> set (backtrack (Seq (Lit a) (Seq (Star k) (Lit b))) (s, g)) \<longleftrightarrow>
     (\<exists>e. (\<exists>ws. list_all (in_cls k) ws \<and> e = a @ ws @ b) \<and> s = e @ s' \<and> g' = g)"
  unfolding mem_rx by auto

lemma mem_decl:
  "(s', g') \<in> set (backtrack decl_rx (s, g)) \<longleftrightarrow>
     (\<exists>name. is_name name \<and> s = decl_text name @ s' \<and> g' = (1, decl_text name) # g)"
  unfolding decl_rx_def decl_text_def is_name_def mem_decl_gen in_cls_Word ..

lemma mem_trace:
  "(s', g') \<in> set (backtrack trace_rx (s, g)) \<longleftrightarrow>
     (\<exists>tr. is_trace tr \<and> s = tr @ s' \<and> g' = (2, tr) # g)"
  unfolding trace_rx_def is_trace_def mem_trace_gen in_cls_Space ..

lemma catch_lits:
  "''} catch (error) {'' = ''} catch (error'' @ '') {''"
  "''} catch (error:'' @ ws @ ''any) {'' = ''} catch (error'' @ '':'' @ ws @ ''any'' @ '') {''"
  by simp_all

lemma mem_catch:
  "(s', g') \<in> set (backtrack catch_rx (s, g)) \<longleftrightarrow>
     (\<exists>h. is_catch h \<and> s = h @ s' \<and> g' = g)"
  unfolding catch_rx_def is_catch_def mem_catch_gen in_cls_Space catch_lits ..

lemma mem_end:
  "(s', g') \<in> set (backtrack end_rx (s, g)) \<longleftrightarrow>
     (\<exists>e. is_end e \<and> s = e @ s' \<and> g' = g)"
  unfolding end_rx_def is_end_def mem_end_gen in_cls_Space ..

lemma catch_at_iff: "catch_at s \<longleftrightarrow> (\<exists>h s'. is_catch h \<and> s = h @ s')"
proof -
  have "catch_at s \<longleftrightarrow> (\<exists>x. x \<in> set (backtrack catch_rx (s, [])))"
    unfolding catch_at_def by (cases "backtrack catch_rx (s, [])") auto
  also have "\<dots> \<longleftrightarrow> (\<exists>s' g'. (s', g') \<in> set (backtrack catch_rx (s, [])))" by auto
  also have "\<dots> \<longleftrightarrow> (\<exists>h s'. is_catch h \<and> s = h @ s')" unfolding mem_catch by blast
  finally show ?thesis .
qed


lemma mem_tail:
  "(s', g') \<in> set (backtrack tail_rx (s, g)) \<longleftrightarrow>
     (\<exists>h mid e. is_catch h \<and> is_end e \<and> s = h @ mid @ e @ s' \<and> g' = g)"
  unfolding tail_rx_def mem_Seq mem_catch mem_end mem_Lazy
  by (auto simp: list_all_iff)

lemma concat_map_first:
  "concat (map F xs) = y # ys \<Longrightarrow>
     \<exists>i < length xs. (\<exists>zs. F (xs ! i) = y # zs) \<and> (\<forall>j < i. F (xs ! j) = [])"
proof (induction xs)
  case Nil
  then show ?case by simp
next
  case (Cons x xs)
  show ?case
  proof (cases "F x")
    case Nil
    with Cons.prems have "concat (map F xs) = y # ys" by simp
    from Cons.IH[OF this] obtain i where i: "i < length xs" "\<exists>zs. F (xs ! i) = y # zs"
      "\<forall>j < i. F (xs ! j) = []" by blast
    have "\<forall>j < Suc i. F ((x # xs) ! j) = []"
    proof (intro allI impI)
      fix j assume "j < Suc i"
      then show "F ((x # xs) ! j) = []" using Nil i(3) by (cases j) auto
    qed
    with i(1,2) have "Suc i < length (x # xs) \<and> (\<exists>zs. F ((x # xs) ! Suc i) = y # zs)
        \<and> (\<forall>j < Suc i. F ((x # xs) ! j) = [])" by simp
    then show ?thesis by blast
  next
    case (Cons a as)
    with Cons.prems have "F x = y # as" by simp
    then have "0 < length (x # xs) \<and> (\<exists>zs. F ((x # xs) ! 0) = y # zs) \<and> (\<forall>j < 0. F ((x # xs) ! j) = [])"
      by simp
    then show ?thesis by blast
  qed
qed

lemma first_Seq:
  assumes "backtrack (Seq a b) st = y # ys"
  shows "\<exists>x \<in> set (backtrack a st). \<exists>zs. backtrack b x = y # zs"
proof -
  from assms have "concat (map (backtrack b) (backtrack a st)) = y # ys" by simp
  from concat_map_first[OF this] obtain i where
    "i < length (backtrack a st)" "\<exists>zs. backtrack b (backtrack a st ! i) = y # zs" by blast
  then show ?thesis using nth_mem by blast
qed

lemma backtrack_Group_Lazy_Dot:
  "backtrack (Group n (Lazy Dot)) (s, g) = map (\<lambda>i. (drop i s, (n, take i s) # g)) [0..<Suc (length s)]"
  by (simp add: lazy_Dot comp_def del: upt_Suc)

lemma first_body:
  assumes "backtrack (Seq (Group n (Lazy Dot)) r) (s, g) = y # ys"
  shows "\<exists>k \<le> length s. (\<exists>zs. backtrack r (drop k s, (n, take k s) # g) = y # zs)
            \<and> (\<forall>j < k. backtrack r (drop j s, (n, take j s) # g) = [])"
proof -
  let ?xs = "map (\<lambda>i. (drop i s, (n, take i s) # g)) [0..<Suc (length s)]"
  from assms have "concat (map (backtrack r) ?xs) = y # ys"
    unfolding backtrack.simps(2) backtrack_Group_Lazy_Dot .
  from concat_map_first[OF this] obtain i where i: "i < length ?xs"
    "\<exists>zs. backtrack r (?xs ! i) = y # zs" "\<forall>j < i. backtrack r (?xs ! j) = []" by blast
  from i(1) have le: "i \<le> length s" by simp
  have nth: "?xs ! j = (drop j s, (n, take j s) # g)" if "j \<le> i" for j
  proof -
    from that le have "j < length [0..<Suc (length s)]" by simp
    then have "?xs ! j = (\<lambda>i. (drop i s, (n, take i s) # g)) ([0..<Suc (length s)] ! j)"
      by (rule nth_map)
    also from that le have "[0..<Suc (length s)] ! j = j"
      by (metis add_0 le_imp_less_Suc le_trans nth_upt)
    finally show ?thesis .
  qed
  from nth[of i] have "?xs ! i = (drop i s, (n, take i s) # g)" by blast
  with i(2) have "\<exists>zs. backtrack r (drop i s, (n, take i s) # g) = y # zs" by metis
  moreover have "\<forall>j < i. backtrack r (drop j s, (n, take j s) # g) = []"
  proof (intro allI impI)
    fix j assume "j < i"
    then have "?xs ! j = (drop j s, (n, take j s) # g)" by (intro nth) simp
    moreover from i(3) \<open>j < i\<close> have "backtrack r (?xs ! j) = []" by blast
    ultimately show "backtrack r (drop j s, (n, take j s) # g) = []" by metis
  qed
  ultimately show ?thesis using le by blast
qed

lemma is_space_not_brace: "is_space c \<Longrightarrow> c \<noteq> CHR ''}''"
  by (auto simp: is_space_def)

lemma catch_tl_no_brace:
  assumes "is_catch h"
  shows "CHR ''}'' \<notin> set (tl h)"
proof -
  from assms consider "h = ''} catch (error) {''"
    | ws where "list_all is_space ws" "h = ''} catch (error:'' @ ws @ ''any) {''"
    unfolding is_catch_def by blast
  then show ?thesis
  proof cases
    case 1
    then show ?thesis by simp
  next
    case 2
    from 2(1) have "CHR ''}'' \<notin> set ws" using is_space_not_brace by (auto simp: list_all_iff)
    with 2(2) show ?thesis by simp
  qed
qed


lemma catch_nth_no_brace:
  assumes "is_catch h" "0 < i" "i < length h"
  shows "h ! i \<noteq> CHR ''}''"
proof -
  from assms(2,3) have "h ! i = tl h ! (i - 1)" "i - 1 < length (tl h)"
    by (cases h; cases i; simp)+
  then have "h ! i \<in> set (tl h)" by (metis nth_mem)
  with catch_tl_no_brace[OF assms(1)] show ?thesis by metis
qed

lemma end_starts_with_brace: "is_end e \<Longrightarrow> \<exists>e'. e = CHR ''}'' # e'"
  unfolding is_end_def by auto


lemma tail_from_catch:
  assumes e: "is_end e" and j: "j < length A" and c: "catch_at (drop j (A @ e @ rest))"
  shows "backtrack tail_rx (drop j (A @ e @ rest), G) \<noteq> []"
proof -
  let ?T = "A @ e @ rest"
  from c obtain h s' where h: "is_catch h" "drop j ?T = h @ s'"
    unfolding catch_at_iff by blast
  from e obtain e' where e': "e = CHR ''}'' # e'" using end_starts_with_brace by blast
  have Tp: "?T ! length A = CHR ''}''" using e' by (simp add: nth_append)
  have le: "j + length h \<le> length A"
  proof (rule ccontr)
    assume "\<not> j + length h \<le> length A"
    with j have i: "0 < length A - j" "length A - j < length h" by auto
    have "drop j ?T ! (length A - j) = ?T ! (j + (length A - j))" using j by (intro nth_drop) simp
    with j have "?T ! length A = drop j ?T ! (length A - j)" by simp
    also have "\<dots> = h ! (length A - j)" using h(2) i(2) by (simp add: nth_append)
    finally have "h ! (length A - j) = CHR ''}''" using Tp by simp
    with catch_nth_no_brace[OF h(1) i] show False by simp
  qed
  have "drop (length h) (drop j ?T) = drop (j + length h) A @ e @ rest"
    using le by (simp add: add.commute)
  with h(2) have "s' = drop (j + length h) A @ e @ rest" by simp
  with h(2) have d: "drop j ?T = h @ drop (j + length h) A @ e @ rest" by simp
  have "\<exists>h' mid e'. is_catch h' \<and> is_end e' \<and> drop j ?T = h' @ mid @ e' @ rest \<and> G = G"
    apply (rule exI[of _ h], rule exI[of _ "drop (j + length h) A"], rule exI[of _ e])
    using h(1) e d by (intro conjI refl)
  then have "(rest, G) \<in> set (backtrack tail_rx (drop j ?T, G))"
    unfolding mem_tail .
  then show ?thesis by (metis empty_iff list.set(1))
qed

lemma first_Seq_pair:
  assumes "backtrack (Seq a b) st = y # ys"
  shows "\<exists>s1 g1 zs. (s1, g1) \<in> set (backtrack a st) \<and> backtrack b (s1, g1) = y # zs"
  using first_Seq[OF assms] by (metis prod.collapse)

lemma match_here_Some:
  "match_here r t = Some (n, g) \<longleftrightarrow>
     (\<exists>s' ys. backtrack r (t, []) = (s', g) # ys \<and> n = length t - length s')"
  unfolding match_here_def by (cases "backtrack r (t, [])") auto

lemma pattern_tail:
  "pattern = Seq decl_rx (Seq (Star Space) (Seq trace_rx (Seq (Lit ''try {'')
       (Seq (Group 3 (Lazy Dot)) tail_rx))))"
  unfolding pattern_def tail_rx_def ..

lemma match_shape:
  assumes "match_here pattern t = Some (n, g)"
  shows "\<exists>name ws tr body h mid e rest.
     t = decl_text name @ ws @ tr @ ''try {'' @ body @ h @ mid @ e @ rest
     \<and> is_name name \<and> list_all is_space ws \<and> is_trace tr \<and> is_catch h \<and> is_end e
     \<and> n = length t - length rest
     \<and> g = [(3, body), (2, tr), (1, decl_text name)]
     \<and> (\<forall>j < length body. \<not> catch_at (drop j (body @ h @ mid @ e @ rest)))"
proof -
  from assms obtain rest ys where b: "backtrack pattern (t, []) = (rest, g) # ys"
    and n: "n = length t - length rest" unfolding match_here_Some by blast
  from first_Seq_pair[OF b[unfolded pattern_tail]] obtain s1 g1 zs1 where
    x1: "(s1, g1) \<in> set (backtrack decl_rx (t, []))" and
    b1: "backtrack (Seq (Star Space) (Seq trace_rx (Seq (Lit ''try {'')
       (Seq (Group 3 (Lazy Dot)) tail_rx)))) (s1, g1) = (rest, g) # zs1" by blast
  from x1 obtain name where name: "is_name name" "t = decl_text name @ s1" "g1 = [(1, decl_text name)]"
    unfolding mem_decl by blast
  from first_Seq_pair[OF b1] obtain s2 g2 zs2 where
    x2: "(s2, g2) \<in> set (backtrack (Star Space) (s1, g1))" and
    b2: "backtrack (Seq trace_rx (Seq (Lit ''try {'')
       (Seq (Group 3 (Lazy Dot)) tail_rx))) (s2, g2) = (rest, g) # zs2" by blast
  from x2 obtain ws where ws: "list_all is_space ws" "s1 = ws @ s2" "g2 = g1"
    unfolding mem_Star in_cls_Space by blast
  from first_Seq_pair[OF b2] obtain s3 g3 zs3 where
    x3: "(s3, g3) \<in> set (backtrack trace_rx (s2, g2))" and
    b3: "backtrack (Seq (Lit ''try {'') (Seq (Group 3 (Lazy Dot)) tail_rx)) (s3, g3) = (rest, g) # zs3"
    by blast
  from x3 obtain tr where tr: "is_trace tr" "s2 = tr @ s3" "g3 = (2, tr) # g2"
    unfolding mem_trace by blast
  from first_Seq_pair[OF b3] obtain s4 g4 zs4 where
    x4: "(s4, g4) \<in> set (backtrack (Lit ''try {'') (s3, g3))" and
    b4: "backtrack (Seq (Group 3 (Lazy Dot)) tail_rx) (s4, g4) = (rest, g) # zs4"
    by blast
  from x4 have s3: "s3 = ''try {'' @ s4" "g4 = g3" unfolding mem_Lit by blast+
  from first_body[OF b4] obtain k zs where k: "k \<le> length s4"
    "backtrack tail_rx (drop k s4, (3, take k s4) # g4) = (rest, g) # zs"
    "\<forall>j < k. backtrack tail_rx (drop j s4, (3, take j s4) # g4) = []" by blast
  from k(2) have "(rest, g) \<in> set (backtrack tail_rx (drop k s4, (3, take k s4) # g4))" by simp
  then obtain h mid e where hme: "is_catch h" "is_end e" "drop k s4 = h @ mid @ e @ rest"
    "g = (3, take k s4) # g4" unfolding mem_tail by blast
  define body where "body = take k s4"
  have s4: "s4 = body @ h @ mid @ e @ rest" unfolding body_def using hme(3)
    by (metis append_take_drop_id)
  have lb: "length body = k" unfolding body_def using k(1) by simp
  have min: "\<forall>j < length body. \<not> catch_at (drop j (body @ h @ mid @ e @ rest))"
  proof (intro allI impI notI)
    fix j assume j: "j < length body" and c: "catch_at (drop j (body @ h @ mid @ e @ rest))"
    from j have "j < length (body @ h @ mid)" by simp
    from tail_from_catch[OF hme(2) this, of rest "(3, take j s4) # g4"] c
    have "backtrack tail_rx (drop j s4, (3, take j s4) # g4) \<noteq> []"
      unfolding s4 by simp
    with k(3) j lb show False by simp
  qed
  have T: "t = decl_text name @ ws @ tr @ ''try {'' @ body @ h @ mid @ e @ rest"
    unfolding name(2) ws(2) tr(2) s3(1) s4 ..
  have G: "g = [(3, body), (2, tr), (1, decl_text name)]"
    unfolding hme(4) body_def s3(2) tr(3) ws(3) name(3) ..
  show ?thesis
    apply (rule exI[of _ name], rule exI[of _ ws], rule exI[of _ tr], rule exI[of _ body],
           rule exI[of _ h], rule exI[of _ mid], rule exI[of _ e], rule exI[of _ rest])
    using T name(1) ws(1) tr(1) hme(1,2) n G min by (intro conjI)
qed

text \<open>The engine's search finds the first entry of the list of alternatives.\<close>

lemma first_some_single [simp]: "first_some k [x] = k x"
  by (simp split: option.splits)

lemma first_some_append:
  "first_some k (xs @ ys) = (case first_some k xs of Some y \<Rightarrow> Some y | None \<Rightarrow> first_some k ys)"
  by (induction xs) (auto split: option.splits)

lemma first_some_concat_map:
  "first_some k (concat (map f xs)) = first_some (\<lambda>x. first_some k (f x)) xs"
  by (induction xs) (auto simp: first_some_append split: option.splits)

lemma first_some_map: "first_some k (map f xs) = first_some (\<lambda>x. k (f x)) xs"
  by (induction xs) (auto split: option.splits)

lemma greedy_k_first: "greedy_k c k s = first_some k (greedy c s)"
  by (induction s) (auto simp: first_some_append split: option.splits)

lemma lazy_k_first: "lazy_k c k s = first_some k (lazy c s)"
  by (induction s) (auto split: option.splits)

lemma search_first: "search r k st = first_some k (backtrack r st)"
proof (induction r arbitrary: k st)
  case (Lit x)
  then show ?case by (simp split: option.splits)
next
  case (Seq r1 r2)
  have "search (Seq r1 r2) k st = first_some (search r2 k) (backtrack r1 st)"
    using Seq.IH(1) by simp
  also have "search r2 k = (\<lambda>x. first_some k (backtrack r2 x))"
    using Seq.IH(2) by (intro ext) simp
  finally show ?case by (simp add: first_some_concat_map)
next
  case (Opt r)
  then show ?case by (simp add: first_some_append split: option.splits)
next
  case (Star x)
  then show ?case by (simp add: greedy_k_first first_some_map)
next
  case (Plus x)
  then show ?case by (simp add: greedy_k_first first_some_map split: list.splits)
next
  case (Lazy x)
  then show ?case by (simp add: lazy_k_first first_some_map)
next
  case (Group n r)
  then show ?case by (simp add: first_some_map)
qed

lemma match_here_search [code]:
  "match_here r s = search r (\<lambda>st. Some (length s - length (fst st), snd st)) (s, [])"
  unfolding search_first match_here_def by (cases "backtrack r (s, [])") auto


section \<open>Properties of the string methods\<close>

lemma str_split_nonempty: "str_split sep s \<noteq> []"
  by (induction s) (auto split: list.splits)

lemma str_split_no_sep: "l \<in> set (str_split sep s) \<Longrightarrow> sep \<notin> set l"
proof (induction s arbitrary: l)
  case Nil
  then show ?case by simp
next
  case (Cons c cs)
  show ?case
  proof (cases "c = sep")
    case True
    with Cons show ?thesis by auto
  next
    case False
    obtain x xs where xs: "str_split sep cs = x # xs"
      using str_split_nonempty[of sep cs] by (cases "str_split sep cs") auto
    with False Cons.prems have "l = c # x \<or> l \<in> set xs" by simp
    then show ?thesis
    proof
      assume "l = c # x"
      moreover have "sep \<notin> set x" using Cons.IH[of x] xs by simp
      ultimately show ?thesis using False by simp
    next
      assume "l \<in> set xs"
      then show ?thesis using Cons.IH[of l] xs by simp
    qed
  qed
qed


lemma str_split_append_no_sep:
  "sep \<notin> set l \<Longrightarrow> str_split sep (l @ sep # s) = l # str_split sep s"
  by (induction l) auto

lemma str_split_no_sep_single: "sep \<notin> set l \<Longrightarrow> str_split sep l = [l]"
  by (induction l) auto

lemma str_split_join:
  "ls \<noteq> [] \<Longrightarrow> (\<forall>l \<in> set ls. sep \<notin> set l) \<Longrightarrow> str_split sep (str_join [sep] ls) = ls"
proof (induction ls)
  case Nil
  then show ?case by simp
next
  case (Cons l ls)
  show ?case
  proof (cases ls)
    case Nil
    with Cons.prems show ?thesis by (simp add: str_split_no_sep_single)
  next
    case (Cons l' ls')
    with Cons.IH Cons.prems have "str_split sep (str_join [sep] ls) = ls" by simp
    with Cons Cons.prems show ?thesis by (simp add: str_split_append_no_sep)
  qed
qed

lemma cleaned_line_set: "set (cleaned_line l) \<subseteq> set l"
  unfolding cleaned_line_def by (auto dest: in_set_dropD)

text \<open>Line by line, the cleaned body is the raw body with each line cleaned.\<close>

lemma cleaned_body_lines:
  "str_split (CHR 0x0A) (cleaned_body body) = map cleaned_line (str_split (CHR 0x0A) body)"
proof -
  have "\<forall>l \<in> set (map cleaned_line (str_split (CHR 0x0A) body)). CHR 0x0A \<notin> set l"
    using str_split_no_sep cleaned_line_set by fastforce
  moreover have "map cleaned_line (str_split (CHR 0x0A) body) \<noteq> []"
    using str_split_nonempty by simp
  ultimately show ?thesis unfolding cleaned_body_def by (rule str_split_join[rotated])
qed

lemma four_spaces_iff: "prefix ''    '' line \<longleftrightarrow> 4 \<le> leading_spaces line"
proof
  assume "prefix ''    '' line"
  then obtain r where "line = ''    '' @ r" unfolding prefix_def by blast
  then show "4 \<le> leading_spaces line" unfolding leading_spaces_def by simp
next
  assume a: "4 \<le> leading_spaces line"
  let ?p = "takeWhile (\<lambda>c. c = CHR '' '') line"
  have sp: "\<forall>c \<in> set ?p. c = CHR '' ''" by (metis (mono_tags, lifting) set_takeWhileD)
  have "take 4 ?p = ''    ''"
  proof -
    from a have l: "length (take 4 ?p) = 4" unfolding leading_spaces_def by simp
    have "\<forall>c \<in> set (take 4 ?p). c = CHR '' ''" using sp by (meson in_set_takeD)
    then have "replicate (length (take 4 ?p)) (CHR '' '') = take 4 ?p"
      by (rule replicate_length_same)
    with l have "take 4 ?p = replicate 4 (CHR '' '')" by metis
    then show ?thesis by (simp add: eval_nat_numeral)
  qed
  moreover have "line = ?p @ dropWhile (\<lambda>c. c = CHR '' '') line" by simp
  ultimately have "line = ''    '' @ drop 4 ?p @ dropWhile (\<lambda>c. c = CHR '' '') line"
    by (metis append_take_drop_id append_assoc)
  then show "prefix ''    '' line" unfolding prefix_def by blast
qed

lemma cleaned_line_indented: "4 \<le> leading_spaces line \<Longrightarrow> cleaned_line line = drop 4 line"
  unfolding cleaned_line_def four_spaces_iff by simp

lemma cleaned_line_other: "leading_spaces line < 4 \<Longrightarrow> cleaned_line line = line"
  unfolding cleaned_line_def four_spaces_iff by simp

lemma str_rstrip_decomp: "\<exists>ws. list_all is_space ws \<and> s = str_rstrip s @ ws"
proof -
  let ?w = "rev (takeWhile is_space (rev s))"
  have "list_all is_space ?w" by (simp add: list_all_iff) (metis set_takeWhileD)
  moreover have "s = str_rstrip s @ ?w"
    unfolding str_rstrip_def by (metis rev_append rev_rev_ident takeWhile_dropWhile_id)
  ultimately show ?thesis by blast
qed

lemma str_rstrip_last: "str_rstrip s \<noteq> [] \<Longrightarrow> \<not> is_space (last (str_rstrip s))"
  unfolding str_rstrip_def by (metis hd_dropWhile last_rev rev_is_Nil_conv rev_rev_ident)

section \<open>Properties of the scan\<close>

lemma match_here_le: "match_here r s = Some (n, g) \<Longrightarrow> n \<le> length s"
  unfolding match_here_def by (auto split: list.splits)

lemma finditer_from_start:
  "(a, b, g) \<in> set (finditer_from r pos s) \<Longrightarrow> pos \<le> a"
proof (induction r pos s rule: finditer_from.induct)
  case (1 r pos)
  then show ?case by (auto split: option.splits)
next
  case (2 r pos c cs)
  show ?case
  proof (cases "match_here r (c # cs)")
    case None
    with 2 show ?thesis by fastforce
  next
    case (Some ng)
    obtain n g' where ng: "ng = (n, g')" by (cases ng)
    show ?thesis
    proof (cases "n = 0")
      case True
      with 2(2)[OF Some ng[symmetric]] 2(4) Some ng show ?thesis by fastforce
    next
      case False
      with 2(3)[OF Some ng[symmetric]] 2(4) Some ng show ?thesis by fastforce
    qed
  qed
qed

lemma splice_shift:
  assumes "pos \<le> q" "q \<le> length doc" "\<forall>(a, b, new) \<in> set ms. q \<le> a"
  shows "splice pos ms doc = take (q - pos) (drop pos doc) @ splice q ms doc"
proof (cases ms)
  case Nil
  have "drop pos doc = take (q - pos) (drop pos doc) @ drop (q - pos) (drop pos doc)"
    by (rule append_take_drop_id[symmetric])
  also have "drop (q - pos) (drop pos doc) = drop q doc" using assms(1) by simp
  finally show ?thesis using Nil by simp
next
  case (Cons m ms')
  obtain a b new where m: "m = (a, b, new)" by (cases m)
  with assms(3) Cons have qa: "q \<le> a" by simp
  have "take (a - pos) (drop pos doc) =
          take (q - pos) (drop pos doc) @ take (a - q) (drop q doc)"
  proof -
    have "a - pos = (q - pos) + (a - q)" using assms(1) qa by simp
    then have "take (a - pos) (drop pos doc) =
        take (q - pos) (drop pos doc) @ take (a - q) (drop (q - pos) (drop pos doc))"
      by (simp only: take_add)
    also have "drop (q - pos) (drop pos doc) = drop q doc" using assms(1) by simp
    finally show ?thesis .
  qed
  then show ?thesis using Cons m by simp
qed

lemma re_sub_splice:
  "re_sub r repl s = Inr out \<Longrightarrow> length pre = pos \<Longrightarrow>
     splice pos (map (replaced repl) (finditer_from r pos s)) (pre @ s) = out"
proof (induction r repl s arbitrary: out pre pos rule: re_sub.induct)
  case (1 r repl)
  then show ?case by (auto simp: replaced_def split: option.splits)
next
  case (2 r repl c cs)
  let ?doc = "pre @ c # cs"
  have doc': "?doc = (pre @ [c]) @ cs" by simp
  have len': "length (pre @ [c]) = Suc pos" using 2(5) by simp
  show ?case
  proof (cases "match_here r (c # cs)")
    case None
    with 2(4) obtain out' where out': "re_sub r repl cs = Inr out'" "out = c # out'"
      by (auto split: sum.splits)
    from 2(1)[OF None out'(1) len'] have
      IH: "splice (Suc pos) (map (replaced repl) (finditer_from r (Suc pos) cs)) ?doc = out'" by simp
    have "\<forall>(a, b, new) \<in> set (map (replaced repl) (finditer_from r (Suc pos) cs)). Suc pos \<le> a"
      using finditer_from_start by (fastforce simp: replaced_def)
    from splice_shift[OF _ _ this, of pos ?doc] 2(5)
    have "splice pos (map (replaced repl) (finditer_from r (Suc pos) cs)) ?doc
        = take 1 (drop pos ?doc) @ splice (Suc pos) (map (replaced repl) (finditer_from r (Suc pos) cs)) ?doc"
      by simp
    also have "take 1 (drop pos ?doc) = [c]" using 2(5) by simp
    finally show ?thesis using None IH out'(2) by simp
  next
    case (Some ng)
    obtain n g where ng: "ng = (n, g)" by (cases ng)
    from 2(4) Some ng obtain new where new: "repl g = Inr new" by (auto split: sum.splits)
    have rep: "replaced repl (pos, pos + n, g) = (pos, pos + n, new)"
      using new by (simp add: replaced_def)
    show ?thesis
    proof (cases "n = 0")
      case True
      with 2(4) Some ng new obtain out' where out': "re_sub r repl cs = Inr out'" "out = new @ c # out'"
        by (auto split: sum.splits)
      from 2(2)[OF Some ng[symmetric] new True out'(1) len'] have
        IH: "splice (Suc pos) (map (replaced repl) (finditer_from r (Suc pos) cs)) ?doc = out'" by simp
      have "\<forall>(a, b, new) \<in> set (map (replaced repl) (finditer_from r (Suc pos) cs)). Suc pos \<le> a"
        using finditer_from_start by (fastforce simp: replaced_def)
      from splice_shift[OF _ _ this, of pos ?doc] 2(5)
      have "splice pos (map (replaced repl) (finditer_from r (Suc pos) cs)) ?doc
          = take 1 (drop pos ?doc) @ splice (Suc pos) (map (replaced repl) (finditer_from r (Suc pos) cs)) ?doc"
        by simp
      also have "take 1 (drop pos ?doc) = [c]" using 2(5) by simp
      finally show ?thesis using Some ng True IH out'(2) rep by simp
    next
      case False
      with 2(4) Some ng new obtain out' where
        out': "re_sub r repl (drop (n - 1) cs) = Inr out'" "out = new @ out'"
        by (auto split: sum.splits)
      from match_here_le Some ng have nle: "n \<le> length (c # cs)" by blast
      let ?pre' = "pre @ take n (c # cs)"
      have "take n (c # cs) @ drop (n - 1) cs = c # cs"
        using False by (cases n) auto
      then have d: "?pre' @ drop (n - 1) cs = ?doc" by simp
      have l: "length ?pre' = pos + n" using 2(5) nle by simp
      from 2(3)[OF Some ng[symmetric] new False out'(1) l] d have
        IH: "splice (pos + n) (map (replaced repl) (finditer_from r (pos + n) (drop (n - 1) cs))) ?doc = out'"
        by simp
      show ?thesis using Some ng False IH out'(2) rep by simp
    qed
  qed
qed

lemma re_sub_no_match:
  "finditer_from r pos s = [] \<Longrightarrow> re_sub r repl s = Inr s"
proof (induction s arbitrary: pos)
  case Nil
  then show ?case by (auto split: option.splits)
next
  case (Cons c cs)
  then show ?case by (auto split: option.splits)
qed


lemma finditer_from_span:
  "(a, b, g) \<in> set (finditer_from r pos s) \<Longrightarrow>
     pos \<le> a \<and> a \<le> b \<and> b \<le> pos + length s \<and> match_here r (drop (a - pos) s) = Some (b - a, g)"
proof (induction r pos s rule: finditer_from.induct)
  case (1 r pos)
  show ?case
  proof (cases "match_here r []")
    case None
    with 1 show ?thesis by simp
  next
    case (Some ng)
    obtain n g' where ng: "ng = (n, g')" by (cases ng)
    from match_here_le[of r "[]" n g'] Some ng have "n = 0" by simp
    with 1 Some ng show ?thesis by simp
  qed
next
  case (2 r pos c cs)
  show ?case
  proof (cases "match_here r (c # cs)")
    case None
    with 2(4) have "(a, b, g) \<in> set (finditer_from r (Suc pos) cs)" by simp
    from 2(1)[OF None this] have *: "Suc pos \<le> a" "a \<le> b" "b \<le> Suc pos + length cs"
      "match_here r (drop (a - Suc pos) cs) = Some (b - a, g)" by blast+
    from *(1) have "drop (a - pos) (c # cs) = drop (a - Suc pos) cs"
      by (simp add: drop_Cons')
    with * show ?thesis by simp
  next
    case (Some ng)
    obtain n g' where ng: "ng = (n, g')" by (cases ng)
    from match_here_le Some ng have nle: "n \<le> length (c # cs)" by blast
    show ?thesis
    proof (cases "(a, b, g) = (pos, pos + n, g')")
      case True
      then have e: "a = pos" "b = pos + n" "g = g'" by simp_all
      have "match_here r (drop (a - pos) (c # cs)) = Some (b - a, g)"
        unfolding e using Some ng by simp
      moreover have "b \<le> pos + length (c # cs)" unfolding e using nle by simp
      ultimately show ?thesis using e by simp
    next
      case False
      show ?thesis
      proof (cases "n = 0")
        case True
        with 2(4) Some ng False have "(a, b, g) \<in> set (finditer_from r (Suc pos) cs)" by auto
        from 2(2)[OF Some ng[symmetric] True this] have *: "Suc pos \<le> a" "a \<le> b"
          "b \<le> Suc pos + length cs" "match_here r (drop (a - Suc pos) cs) = Some (b - a, g)"
          by blast+
        from *(1) have "drop (a - pos) (c # cs) = drop (a - Suc pos) cs"
          by (simp add: drop_Cons')
        with * show ?thesis by simp
      next
        case n0: False
        with 2(4) Some ng False have "(a, b, g) \<in> set (finditer_from r (pos + n) (drop (n - 1) cs))"
          by auto
        from 2(3)[OF Some ng[symmetric] n0 this] have *: "pos + n \<le> a" "a \<le> b"
          "b \<le> pos + n + length (drop (n - 1) cs)"
          "match_here r (drop (a - (pos + n)) (drop (n - 1) cs)) = Some (b - a, g)" by blast+
        have "drop (a - (pos + n)) (drop (n - 1) cs) = drop (a - pos) (c # cs)"
        proof -
          from *(1) n0 have "a - (pos + n) + (n - 1) = a - pos - 1" "a - pos \<noteq> 0" by arith+
          then show ?thesis by (simp add: drop_Cons')
        qed
        moreover have "pos + n + length (drop (n - 1) cs) \<le> pos + length (c # cs)"
          using nle n0 by simp
        ultimately show ?thesis using * by simp
      qed
    qed
  qed
qed

lemma finditer_from_sorted:
  "sorted_wrt (\<lambda>m m'. fst (snd m) \<le> fst m') (finditer_from r pos s)"
proof (induction r pos s rule: finditer_from.induct)
  case (1 r pos)
  then show ?case by (auto split: option.splits)
next
  case (2 r pos c cs)
  show ?case
  proof (cases "match_here r (c # cs)")
    case None
    with 2(1) show ?thesis by simp
  next
    case (Some ng)
    obtain n g' where ng: "ng = (n, g')" by (cases ng)
    show ?thesis
    proof (cases "n = 0")
      case True
      have "\<forall>m \<in> set (finditer_from r (Suc pos) cs). pos + n \<le> fst m"
        using finditer_from_start True by fastforce
      with 2(2)[OF Some ng[symmetric] True] Some ng True show ?thesis by simp
    next
      case False
      have "\<forall>m \<in> set (finditer_from r (pos + n) (drop (n - 1) cs)). pos + n \<le> fst m"
        using finditer_from_start by fastforce
      with 2(3)[OF Some ng[symmetric] False] Some ng False show ?thesis by simp
    qed
  qed
qed

lemma re_sub_total:
  assumes "\<And>t n g. match_here r t = Some (n, g) \<Longrightarrow> \<exists>new. repl g = Inr new"
  shows "\<exists>out. re_sub r repl s = Inr out"
proof (induction s rule: length_induct)
  case (1 s)
  show ?case
  proof (cases s)
    case Nil
    then show ?thesis using assms[of "[]"] by (cases "match_here r []") auto
  next
    case (Cons c cs)
    show ?thesis
    proof (cases "match_here r (c # cs)")
      case None
      from 1 Cons obtain out where "re_sub r repl cs = Inr out" by auto
      with None Cons show ?thesis by simp
    next
      case (Some ng)
      obtain n g where ng: "ng = (n, g)" by (cases ng)
      from assms[of "c # cs" n g] Some ng obtain new where new: "repl g = Inr new" by auto
      from 1 Cons obtain out1 where o1: "re_sub r repl cs = Inr out1" by auto
      have "length (drop (n - 1) cs) < length s" using Cons by simp
      with 1 obtain out2 where o2: "re_sub r repl (drop (n - 1) cs) = Inr out2" by blast
      show ?thesis using Some ng new o1 o2 Cons by simp
    qed
  qed
qed




section \<open>Properties of the program's matches\<close>

lemma decl_text_nonempty: "decl_text name \<noteq> []"
  unfolding decl_text_def by simp

lemma pattern_match_pos:
  assumes "match_here pattern t = Some (n, g)"
  shows "0 < n"
proof -
  from match_shape[OF assms] obtain name ws tr body h mid e rest where
    t: "t = decl_text name @ ws @ tr @ ''try {'' @ body @ h @ mid @ e @ rest"
    and n: "n = length t - length rest" by blast
  have "length (decl_text name) > 0" using decl_text_nonempty by simp
  with t n show ?thesis by simp
qed

lemma pattern_groups:
  assumes "match_here pattern t = Some (n, g)"
  shows "\<exists>name tr body. is_name name \<and> is_trace tr \<and>
           map_of g 1 = Some (decl_text name) \<and> map_of g 2 = Some tr \<and> map_of g 3 = Some body"
proof -
  from match_shape[OF assms] obtain name ws tr body h mid e rest where
    *: "is_name name" "is_trace tr" "g = [(3, body), (2, tr), (1, decl_text name)]" by blast
  from *(3) have "map_of g 1 = Some (decl_text name)" "map_of g 2 = Some tr" "map_of g 3 = Some body"
    by simp_all
  with *(1,2) show ?thesis by blast
qed

lemma replace_func_ok:
  assumes "match_here pattern t = Some (n, g)"
  shows "\<exists>new. replace_func g = Inr new"
proof -
  from pattern_groups[OF assms] obtain d body where "map_of g 1 = Some d" "map_of g 3 = Some body"
    by blast
  then show ?thesis unfolding replace_func_def by simp
qed

lemma refactor_total: "\<exists>out. refactor_controller doc = Inr out"
  unfolding refactor_controller_def using replace_func_ok by (rule re_sub_total)

lemma refactor_splice:
  "refactor_controller doc = Inr (splice 0 (map (replaced replace_func) (finditer pattern doc)) doc)"
proof -
  from refactor_total obtain out where out: "refactor_controller doc = Inr out" by blast
  then have "re_sub pattern replace_func doc = Inr out" unfolding refactor_controller_def .
  from re_sub_splice[OF this, of "[]" 0] have
    "splice 0 (map (replaced replace_func) (finditer pattern doc)) doc = out"
    unfolding finditer_def by simp
  with out show ?thesis by simp
qed

lemma finditer_span:
  assumes "(a, b, g) \<in> set (finditer pattern doc)"
  shows "a < b \<and> b \<le> length doc \<and> match_here pattern (drop a doc) = Some (b - a, g)"
proof -
  from finditer_from_span[OF assms[unfolded finditer_def]] have
    *: "a \<le> b" "b \<le> length doc" "match_here pattern (drop a doc) = Some (b - a, g)" by simp_all
  from pattern_match_pos[OF *(3)] * show ?thesis by simp
qed


section \<open>The declaration and what follows it\<close>

lemma is_word_not_space: "is_word c \<Longrightarrow> c \<noteq> CHR '' ''"
  by (auto simp: is_word_def)

lemma is_word_not_eq: "is_word c \<Longrightarrow> c \<noteq> CHR ''=''"
  by (auto simp: is_word_def)

lemma str_replace_same_aux: "new = old \<Longrightarrow> old \<noteq> [] \<Longrightarrow> str_replace old new s = s"
proof (induction old new s rule: str_replace.induct)
  case (1 old new)
  then show ?case by simp
next
  case (2 old new c cs)
  show ?case
  proof (cases "prefix old (c # cs)")
    case True
    then obtain r where r: "c # cs = old @ r" unfolding prefix_def by blast
    from "2.prems"(2) obtain x xs where old: "old = x # xs" by (cases old) auto
    with r have cs: "cs = xs @ r" by simp
    then have d: "drop (length old - 1) cs = r" using old by simp
    from "2.IH"(2)[OF "2.prems"(2) True "2.prems"] d have ih: "str_replace old new r = r" by simp
    have "str_replace old new (c # cs) = new @ str_replace old new (drop (length old - 1) cs)"
      using True "2.prems"(2) by simp
    also have "\<dots> = old @ r" using d ih "2.prems"(1) by simp
    also have "\<dots> = c # cs" using r by simp
    finally show ?thesis .
  next
    case False
    with "2.IH"(3)[OF "2.prems"(2) False "2.prems"] "2.prems" show ?thesis by simp
  qed
qed

lemma str_replace_same: "old \<noteq> [] \<Longrightarrow> str_replace old old s = s"
  by (rule str_replace_same_aux[OF refl])

lemma str_replace_skip_word:
  "list_all is_word name \<Longrightarrow>
     str_replace (CHR '' '' # old) new (name @ rest) = name @ str_replace (CHR '' '' # old) new rest"
  by (induction name) (auto dest: is_word_not_space)

lemma wrap_decl_text:
  assumes "is_name name"
  shows "wrap_decl (decl_text name) = wrapped_text name"
proof -
  let ?old = "'' = async (''" and ?new = "'' = asyncHandler(async (''"
  let ?params = "''req: RequestWithTraceContext, res: Response) => {''"
  from assms obtain c cs where name: "name = c # cs" "is_word c" "list_all is_word name"
    unfolding is_name_def by (cases name) auto
  have d: "decl_text name = ''export const '' @ name @ ?old @ ?params"
    unfolding decl_text_def by simp
  have 1: "str_replace ?old ?new (''export const '' @ name @ ?old @ ?params)
         = ''export const '' @ str_replace ?old ?new (name @ ?old @ ?params)"
    using name(1) is_word_not_eq[OF name(2)] by simp
  have 2: "str_replace ?old ?new (name @ ?old @ ?params) = name @ str_replace ?old ?new (?old @ ?params)"
    using name(3) by (rule str_replace_skip_word)
  have 3: "str_replace ?old ?new (?old @ ?params) = ?new @ ?params"
    by simp
  have "wrap_decl (decl_text name) = str_replace ?old ?new (decl_text name)"
    unfolding wrap_decl_def by (simp only: str_replace_same list.distinct not_False_eq_True)
  also have "\<dots> = ''export const '' @ name @ ?new @ ?params"
    unfolding d 1 2 3 ..
  also have "\<dots> = wrapped_text name" unfolding wrapped_text_def by simp
  finally show ?thesis .
qed









lemma match_first_catch:
  assumes "match_here pattern t = Some (n, g)"
  shows "\<exists>name ws tr body rest.
     t = decl_text name @ ws @ tr @ ''try {'' @ body @ rest \<and>
     is_name name \<and> list_all is_space ws \<and> is_trace tr \<and>
     map_of g 3 = Some body \<and> catch_at rest \<and>
     (\<forall>j < length body. \<not> catch_at (drop j (body @ rest)))"
proof -
  from match_shape[OF assms] obtain name ws tr body h mid e rest where
    *: "t = decl_text name @ ws @ tr @ ''try {'' @ body @ h @ mid @ e @ rest"
    "is_name name" "list_all is_space ws" "is_trace tr" "is_catch h"
    "g = [(3, body), (2, tr), (1, decl_text name)]"
    "\<forall>j < length body. \<not> catch_at (drop j (body @ h @ mid @ e @ rest))" by blast
  from *(5) have c: "catch_at (h @ mid @ e @ rest)" unfolding catch_at_iff by blast
  from *(6) have g3: "map_of g 3 = Some body" by simp
  show ?thesis
    apply (rule exI[of _ name], rule exI[of _ ws], rule exI[of _ tr], rule exI[of _ body],
           rule exI[of _ "h @ mid @ e @ rest"])
    using *(1,2,3,4) g3 c *(7) by (intro conjI)
qed

section \<open>The rewritten text holds no catch head\<close>
























section \<open>The scenario\<close>

lemma scenario_run: "refactor_controller scenario_in = Inr scenario_out"
  by code_simp

lemma scenario_out_lines:
  "str_split (CHR 0x0A) scenario_out =
     [''export const getUser = asyncHandler(async (req: RequestWithTraceContext, res: Response) => {'',
      ''const { traceId, spanId } = req;'',
      ''  '',
      ''const user = await fetchUser(req.params.id);'',
      ''res.json(user);'',
      ''});'']"
  by code_simp

lemma scenario_printed_not_expected:
  "refactor_controller (as_printed scenario_in_lines) \<noteq> Inr (as_printed scenario_expected_lines)"
  by code_simp

lemma scenario_out_not_expected: "scenario_out \<noteq> scenario_expected"
  by code_simp


text \<open>
  Claim C1, as amended. On the scenario document the program returns six lines, not
  five: the wrapped declaration line, the trace-extraction statement, a line of two
  spaces, the two body lines without their indentation, and the closing line. The
  replacement is the new declaration, a newline, the trace-extraction capture as it was
  matched (the statement and the whitespace behind it, a newline and two spaces), the
  cleaned body (which starts with the newline that followed the opening of the try
  block), a newline and the closing tokens.
\<close>

theorem C1_scenario_output:
  "refactor_controller scenario_in = Inr scenario_out \<and>
   str_split (CHR 0x0A) scenario_out =
     [''export const getUser = asyncHandler(async (req: RequestWithTraceContext, res: Response) => {'',
      ''const { traceId, spanId } = req;'',
      ''  '',
      ''const user = await fetchUser(req.params.id);'',
      ''res.json(user);'',
      ''});'']"
  using scenario_run scenario_out_lines by (rule conjI)

text \<open>
  Claim C1, as stated, fails: the program's output on the scenario document is not the
  five-line text the specification expects, neither for the document as the code block
  holds it nor for the document with the two columns of the list item in front of
  every line.
\<close>

theorem C1_counterexample:
  "refactor_controller scenario_in \<noteq> Inr scenario_expected \<and>
   refactor_controller (as_printed scenario_in_lines) \<noteq> Inr (as_printed scenario_expected_lines)"
proof -
  from scenario_run scenario_out_not_expected
  have "refactor_controller scenario_in \<noteq> Inr scenario_expected" by simp
  then show ?thesis using scenario_printed_not_expected by (rule conjI)
qed

section \<open>The sample documents\<close>

lemma sample_matches:
  "finditer pattern sample_doc = [(12, 238, sample_groups_a), (252, 378, sample_groups_b)]"
  by code_simp

lemma sample_spliced:
  "splice 0 (map (replaced replace_func) [(12, 238, sample_groups_a), (252, 378, sample_groups_b)])
     sample_doc = sample_out"
  by code_simp

lemma plain_no_match: "finditer pattern plain_doc = []"
  by code_simp

lemma decl_text_params: "decl_text name = ''export const '' @ name @ '' = async ('' @ params_text"
  unfolding decl_text_def params_text_def by simp

lemma wrapped_text_params:
  "wrapped_text name = ''export const '' @ name @ '' = asyncHandler(async ('' @ params_text"
  unfolding wrapped_text_def params_text_def by simp

lemma finditer_match:
  "(a, b, g) \<in> set (finditer pattern doc) \<Longrightarrow> match_here pattern (drop a doc) = Some (b - a, g)"
  using finditer_span by blast

lemma sample_first: "(12, 238, sample_groups_a) \<in> set (finditer pattern sample_doc)"
  unfolding sample_matches by simp






section \<open>The claims\<close>

text \<open>
  Claim C3. The body rewriter works on the lines of the raw body one by one: the lines
  of the cleaned body are the cleaned lines of the body. A line that starts with at
  least four spaces loses exactly its first four characters; a line that starts with
  fewer than four spaces (one that starts with a tab, say) is kept as it is. The body
  that goes into the replacement is the cleaned body with its trailing whitespace cut
  off: what is cut is whitespace only, and what is left does not end in whitespace.
\<close>

theorem C3_body_rewriter:
  "str_split (CHR 0x0A) (cleaned_body body) = map cleaned_line (str_split (CHR 0x0A) body) \<and>
   (4 \<le> leading_spaces line \<longrightarrow> cleaned_line line = drop 4 line) \<and>
   (leading_spaces line < 4 \<longrightarrow> cleaned_line line = line) \<and>
   (\<exists>ws. list_all is_space ws \<and> cleaned_body body = str_rstrip (cleaned_body body) @ ws) \<and>
   (str_rstrip (cleaned_body body) \<noteq> [] \<longrightarrow> \<not> is_space (last (str_rstrip (cleaned_body body)))) \<and>
   (map_of g 1 = Some func_decl \<and> map_of g 3 = Some body \<longrightarrow>
      (\<exists>before. replace_func g =
         Inr (before @ str_rstrip (cleaned_body body) @ [CHR 0x0A] @ ''});'')))"
proof (intro conjI impI)
  show "str_split (CHR 0x0A) (cleaned_body body) = map cleaned_line (str_split (CHR 0x0A) body)"
    by (rule cleaned_body_lines)
  show "cleaned_line line = drop 4 line" if "4 \<le> leading_spaces line"
    using that by (rule cleaned_line_indented)
  show "cleaned_line line = line" if "leading_spaces line < 4"
    using that by (rule cleaned_line_other)
  show "\<exists>ws. list_all is_space ws \<and> cleaned_body body = str_rstrip (cleaned_body body) @ ws"
    by (rule str_rstrip_decomp)
  show "\<not> is_space (last (str_rstrip (cleaned_body body)))" if "str_rstrip (cleaned_body body) \<noteq> []"
    using that by (rule str_rstrip_last)
  show "\<exists>before. replace_func g = Inr (before @ str_rstrip (cleaned_body body) @ [CHR 0x0A] @ ''});'')"
    if "map_of g 1 = Some func_decl \<and> map_of g 3 = Some body"
  proof -
    let ?before = "wrap_decl func_decl @ [CHR 0x0A] @
      (case map_of g 2 of
         None \<Rightarrow> []
       | Some trace_extract \<Rightarrow> if trace_extract \<noteq> [] then trace_extract else [])"
    have "replace_func g = Inr (?before @ str_rstrip (cleaned_body body) @ [CHR 0x0A] @ ''});'')"
      using that unfolding replace_func_def by simp
    then show ?thesis by blast
  qed
qed

theorem C3_body_rewriter_witness:
  "4 \<le> leading_spaces ''      f();'' \<and> cleaned_line ''      f();'' = ''  f();'' \<and>
   leading_spaces [CHR 0x09, CHR ''g''] < 4 \<and> cleaned_line [CHR 0x09, CHR ''g''] = [CHR 0x09, CHR ''g''] \<and>
   map_of sample_groups_a 1 =
     Some ''export const a = async (req: RequestWithTraceContext, res: Response) => {'' \<and>
   map_of sample_groups_a 3 = Some (str_join [CHR 0x0A] ['''', ''    try {'', ''      f();'', ''    '']) \<and>
   str_rstrip (cleaned_body (str_join [CHR 0x0A] ['''', ''    try {'', ''      f();'', ''    '']))
     = str_join [CHR 0x0A] ['''', ''try {'', ''  f();''] \<and>
   (\<exists>before. replace_func sample_groups_a =
      Inr (before @ str_join [CHR 0x0A] ['''', ''try {'', ''  f();''] @ [CHR 0x0A] @ ''});''))"
proof -
  let ?body = "str_join [CHR 0x0A] ['''', ''    try {'', ''      f();'', ''    '']"
  let ?decl = "''export const a = async (req: RequestWithTraceContext, res: Response) => {''"
  have a: "4 \<le> leading_spaces ''      f();''" by code_simp
  have b: "leading_spaces [CHR 0x09, CHR ''g''] < 4" by code_simp
  have g: "map_of sample_groups_a 1 = Some ?decl \<and> map_of sample_groups_a 3 = Some ?body"
    by code_simp
  have r: "str_rstrip (cleaned_body ?body) = str_join [CHR 0x0A] ['''', ''try {'', ''  f();'']"
    by code_simp
  have d: "drop 4 ''      f();'' = ''  f();''" by simp
  from C3_body_rewriter[of ?body "''      f();''" sample_groups_a ?decl] a d
  have 1: "cleaned_line ''      f();'' = ''  f();''" by simp
  from C3_body_rewriter[of ?body "[CHR 0x09, CHR ''g'']" sample_groups_a ?decl] b
  have 2: "cleaned_line [CHR 0x09, CHR ''g''] = [CHR 0x09, CHR ''g'']" by blast
  from C3_body_rewriter[of ?body "[]" sample_groups_a ?decl] g
  have "\<exists>before. replace_func sample_groups_a =
      Inr (before @ str_rstrip (cleaned_body ?body) @ [CHR 0x0A] @ ''});'')" by blast
  then have 3: "\<exists>before. replace_func sample_groups_a =
      Inr (before @ str_join [CHR 0x0A] ['''', ''try {'', ''  f();''] @ [CHR 0x0A] @ ''});'')"
    unfolding r .
  from a 1 b 2 g r 3 show ?thesis by (intro conjI) blast+
qed

text \<open>
  Claim C4. A document in which the scan finds no match of the pattern is returned as
  it is, character for character, and not as an error.
\<close>

theorem C4_no_match_identity:
  "finditer pattern doc = [] \<Longrightarrow> refactor_controller doc = Inr doc"
  unfolding finditer_def refactor_controller_def by (rule re_sub_no_match)

theorem C4_no_match_identity_witness:
  "finditer pattern plain_doc = [] \<and> refactor_controller plain_doc = Inr plain_doc"
  using plain_no_match C4_no_match_identity[OF plain_no_match] by (rule conjI)

text \<open>
  Claim C6. The matches of a document, in the order the scan finds them, are ordered by
  their start offsets and do not overlap: each ends before or where the next starts.
  Each is a nonempty span inside the document at which the pattern matches, and its
  replacement is computed without error. The output is the document with each span
  replaced by its replacement: the text before the first span, between two spans and
  behind the last span is copied as it is, in the same order.
\<close>

theorem C6_frame:
  "sorted_wrt (\<lambda>m m'. fst (snd m) \<le> fst m') (finditer pattern doc) \<and>
   (\<forall>(a, b, g) \<in> set (finditer pattern doc).
       a < b \<and> b \<le> length doc \<and> match_here pattern (drop a doc) = Some (b - a, g) \<and>
       (\<exists>new. replace_func g = Inr new)) \<and>
   refactor_controller doc = Inr (splice 0 (map (replaced replace_func) (finditer pattern doc)) doc)"
proof (intro conjI)
  show "sorted_wrt (\<lambda>m m'. fst (snd m) \<le> fst m') (finditer pattern doc)"
    unfolding finditer_def by (rule finditer_from_sorted)
  show "\<forall>(a, b, g) \<in> set (finditer pattern doc).
       a < b \<and> b \<le> length doc \<and> match_here pattern (drop a doc) = Some (b - a, g) \<and>
       (\<exists>new. replace_func g = Inr new)"
    using finditer_span replace_func_ok by blast
  show "refactor_controller doc = Inr (splice 0 (map (replaced replace_func) (finditer pattern doc)) doc)"
    by (rule refactor_splice)
qed

theorem C6_frame_witness:
  "finditer pattern sample_doc = [(12, 238, sample_groups_a), (252, 378, sample_groups_b)] \<and>
   (12::nat) < 238 \<and> 238 \<le> length sample_doc \<and>
   match_here pattern (drop 12 sample_doc) = Some (238 - 12, sample_groups_a) \<and>
   (252::nat) < 378 \<and> 378 \<le> length sample_doc \<and>
   match_here pattern (drop 252 sample_doc) = Some (378 - 252, sample_groups_b) \<and>
   refactor_controller sample_doc = Inr sample_out"
proof -
  from C6_frame[of sample_doc] have
    spans: "\<forall>(a, b, g) \<in> set (finditer pattern sample_doc).
       a < b \<and> b \<le> length sample_doc \<and> match_here pattern (drop a sample_doc) = Some (b - a, g) \<and>
       (\<exists>new. replace_func g = Inr new)"
    and out: "refactor_controller sample_doc =
       Inr (splice 0 (map (replaced replace_func) (finditer pattern sample_doc)) sample_doc)"
    by blast+
  have "(12, 238, sample_groups_a) \<in> set (finditer pattern sample_doc)"
    unfolding sample_matches by simp
  with spans have a: "(12::nat) < 238 \<and> 238 \<le> length sample_doc \<and>
      match_here pattern (drop 12 sample_doc) = Some (238 - 12, sample_groups_a)" by fast
  have "(252, 378, sample_groups_b) \<in> set (finditer pattern sample_doc)"
    unfolding sample_matches by simp
  with spans have b: "(252::nat) < 378 \<and> 378 \<le> length sample_doc \<and>
      match_here pattern (drop 252 sample_doc) = Some (378 - 252, sample_groups_b)" by fast
  from out have "refactor_controller sample_doc = Inr sample_out"
    unfolding sample_matches sample_spliced .
  with sample_matches a b show ?thesis by blast
qed

text \<open>
  Claim C2. At every match the body capture ends at the earliest occurrence of a catch
  head behind the opening of the try block: the text of the match is the declaration,
  whitespace, the optional trace-extraction statement, \<open>try {\<close>, the captured body and
  a rest that starts with a catch head (\<open>} catch (error) {\<close>, or with \<open>: any\<close> behind
  \<open>error\<close>), and at no position inside the captured body does a catch head start. So
  where the try block contains a nested try/catch, the body is cut at the inner catch.
\<close>

theorem C2_earliest_catch:
  assumes "(a, b, g) \<in> set (finditer pattern doc)"
  shows "\<exists>name ws tr body rest.
     drop a doc = decl_text name @ ws @ tr @ ''try {'' @ body @ rest \<and>
     is_name name \<and> list_all is_space ws \<and> is_trace tr \<and>
     map_of g 3 = Some body \<and> catch_at rest \<and>
     (\<forall>j < length body. \<not> catch_at (drop j (body @ rest)))"
  using match_first_catch[OF finditer_match[OF assms]] .

theorem C2_earliest_catch_witness:
  "(12, 238, sample_groups_a) \<in> set (finditer pattern sample_doc) \<and>
   map_of sample_groups_a 3 = Some (str_join [CHR 0x0A] [[], ''    try {'', ''      f();'', ''    '']) \<and>
   prefix (str_join [CHR 0x0A]
            [''export const a = async (req: RequestWithTraceContext, res: Response) => {'',
             ''  const { traceId, spanId } = req;'',
             ''  try {'',
             ''    try {'',
             ''      f();'',
             ''    } catch (error) {''])
          (drop 12 sample_doc) \<and>
   (\<exists>name ws tr body rest.
     drop 12 sample_doc = decl_text name @ ws @ tr @ ''try {'' @ body @ rest \<and>
     is_name name \<and> list_all is_space ws \<and> is_trace tr \<and>
     map_of sample_groups_a 3 = Some body \<and> catch_at rest \<and>
     (\<forall>j < length body. \<not> catch_at (drop j (body @ rest))))"
proof -
  have 1: "map_of sample_groups_a 3 =
      Some (str_join [CHR 0x0A] [[], ''    try {'', ''      f();'', ''    ''])"
    by code_simp
  have 2: "prefix (str_join [CHR 0x0A]
            [''export const a = async (req: RequestWithTraceContext, res: Response) => {'',
             ''  const { traceId, spanId } = req;'',
             ''  try {'',
             ''    try {'',
             ''      f();'',
             ''    } catch (error) {''])
          (drop 12 sample_doc)"
    by code_simp
  from sample_first 1 2 C2_earliest_catch[OF sample_first] show ?thesis by (intro conjI)
qed

text \<open>
  Claim C7. At every match the declaration capture is \<open>export const\<close>, the handler
  name, \<open> = async (\<close> and the parameter list; the declaration rewriter turns it into
  \<open>export const\<close>, the same name, \<open> = asyncHandler(async (\<close> and the same parameter
  list, and the replacement starts with this line.
\<close>

theorem C7_declaration_rewrite:
  assumes "(a, b, g) \<in> set (finditer pattern doc)"
  shows "\<exists>name.
     is_name name \<and>
     map_of g 1 = Some (''export const '' @ name @ '' = async ('' @ params_text) \<and>
     wrap_decl (''export const '' @ name @ '' = async ('' @ params_text) =
       ''export const '' @ name @ '' = asyncHandler(async ('' @ params_text \<and>
     (\<exists>rest. replace_func g =
        Inr (''export const '' @ name @ '' = asyncHandler(async ('' @ params_text @ [CHR 0x0A] @ rest))"
proof -
  from match_shape[OF finditer_match[OF assms]] obtain name tr body where
    name: "is_name name" and g: "g = [(3, body), (2, tr), (1, decl_text name)]" by blast
  from g have g1: "map_of g 1 = Some (decl_text name)" by simp
  have w: "wrap_decl (decl_text name) = wrapped_text name" using name by (rule wrap_decl_text)
  have "replace_func g =
      Inr (wrapped_text name @ [CHR 0x0A] @ (tr @ str_rstrip (cleaned_body body) @ [CHR 0x0A] @ ''});''))"
    unfolding replace_func_def g using w by simp
  then have r: "\<exists>rest. replace_func g = Inr (wrapped_text name @ [CHR 0x0A] @ rest)" by blast
  have d: "decl_text name = ''export const '' @ name @ '' = async ('' @ params_text"
    by (rule decl_text_params)
  have "wrapped_text name @ x = ''export const '' @ name @ '' = asyncHandler(async ('' @ params_text @ x"
    for x unfolding wrapped_text_params by simp
  with r have r': "\<exists>rest. replace_func g =
        Inr (''export const '' @ name @ '' = asyncHandler(async ('' @ params_text @ [CHR 0x0A] @ rest)"
    by metis
  show ?thesis
    apply (rule exI[of _ name])
    using name g1[unfolded d] w[unfolded d wrapped_text_params] r' by (intro conjI)
qed

theorem C7_declaration_rewrite_witness:
  "(12, 238, sample_groups_a) \<in> set (finditer pattern sample_doc) \<and>
   map_of sample_groups_a 1 = Some (''export const '' @ ''a'' @ '' = async ('' @ params_text) \<and>
   (\<exists>name.
     is_name name \<and>
     map_of sample_groups_a 1 = Some (''export const '' @ name @ '' = async ('' @ params_text) \<and>
     wrap_decl (''export const '' @ name @ '' = async ('' @ params_text) =
       ''export const '' @ name @ '' = asyncHandler(async ('' @ params_text \<and>
     (\<exists>rest. replace_func sample_groups_a =
        Inr (''export const '' @ name @ '' = asyncHandler(async ('' @ params_text @ [CHR 0x0A] @ rest)))"
proof -
  have 1: "map_of sample_groups_a 1 = Some (''export const '' @ ''a'' @ '' = async ('' @ params_text)"
    by code_simp
  from sample_first 1 C7_declaration_rewrite[OF sample_first] show ?thesis by (intro conjI)
qed










text \<open>
  Claim C8. Called without a path argument, the script prints the usage message and
  ends with exit status 1: the files are as they were, and the one thing it did is the
  print; it opened no file to read or to write and did not call the transformation.
\<close>

theorem C8_missing_argument:
  assumes "length argv \<le> 1"
  shows "fst (main argv w) = Exit 1 \<and> (1::nat) \<noteq> 0 \<and>
         files (snd (main argv w)) = files w \<and>
         trace (snd (main argv w)) = trace w @ [Print usage_text] \<and>
         (\<forall>p. Read_file p \<notin> set [Print usage_text]) \<and>
         (\<forall>p. Write_file p \<notin> set [Print usage_text]) \<and>
         Transform \<notin> set [Print usage_text]"
  using assms unfolding main_def usage_exit_def by auto

theorem C8_missing_argument_witness:
  "length [''refactor_controllers.py''] \<le> 1 \<and>
   main [''refactor_controllers.py''] demo_world =
     (Exit 1, demo_world\<lparr>trace := [Print usage_text]\<rparr>)"
proof -
  have l: "length [''refactor_controllers.py''] \<le> 1" by simp
  from C8_missing_argument[OF l, of demo_world]
  have "fst (main [''refactor_controllers.py''] demo_world) = Exit 1"
    "files (snd (main [''refactor_controllers.py''] demo_world)) = files demo_world"
    "trace (snd (main [''refactor_controllers.py''] demo_world)) = trace demo_world @ [Print usage_text]"
    by blast+
  moreover have "writable (snd (main [''refactor_controllers.py''] demo_world)) = writable demo_world"
    unfolding main_def usage_exit_def by simp
  ultimately have "main [''refactor_controllers.py''] demo_world =
     (Exit 1, demo_world\<lparr>trace := trace demo_world @ [Print usage_text]\<rparr>)"
    by (cases "main [''refactor_controllers.py''] demo_world") auto
  then show ?thesis using l unfolding demo_world_def by simp
qed

end
